theory Spec2Isabelle
  imports Complex_Main "HOL-Library.AList" "HOL-Library.Sublist"
begin

section \<open>Python primitives used by the sources\<close>








fun join :: "string \<Rightarrow> string list \<Rightarrow> string" where
  "join sep [] = []"
| "join sep [x] = x"
| "join sep (x # y # ys) = x @ sep @ join sep (y # ys)"


text \<open>The exceptions the modelled functions raise, with their messages.\<close>

datatype error =
    DagsterInvariantViolationError string
  | CheckError string
  | KeyError string

text \<open>
  \<open>s.split(sep)\<close> for a non-empty separator, as CPython computes it: find the leftmost
  occurrence of \<open>sep\<close>, emit the text before it, continue after it; when there is no
  further occurrence emit the rest. (An empty separator raises \<open>ValueError\<close>; the
  sources only split on the constant \<open>"::"\<close>.)
\<close>

fun find_first :: "string \<Rightarrow> string \<Rightarrow> (string \<times> string) option" where
  "find_first sep [] = None"
| "find_first sep (c # cs) =
     (if prefix sep (c # cs) then Some ([], drop (length sep) (c # cs))
      else (case find_first sep cs of
              None \<Rightarrow> None
            | Some (p, r) \<Rightarrow> Some (c # p, r)))"

lemma find_first_decomp: "find_first sep s = Some (p, r) \<Longrightarrow> s = p @ sep @ r"
proof (induction s arbitrary: p)
  case Nil
  then show ?case by simp
next
  case (Cons c cs)
  show ?case
  proof (cases "prefix sep (c # cs)")
    case True
    then have "c # cs = sep @ drop (length sep) (c # cs)"
      by (auto simp: prefix_def)
    with True Cons.prems show ?thesis by simp
  next
    case False
    with Cons.prems obtain p' where "find_first sep cs = Some (p', r)" "p = c # p'"
      by (auto split: option.splits)
    with Cons.IH show ?thesis by simp
  qed
qed

function split_parts :: "string \<Rightarrow> string \<Rightarrow> string list" where
  "split_parts sep s =
     (case find_first sep s of
        None \<Rightarrow> [s]
      | Some (p, r) \<Rightarrow> if sep = [] then [s] else p # split_parts sep r)"
  by pat_completeness auto
termination
  by (relation "measure (\<lambda>(sep, s). length s)") (auto dest: find_first_decomp)

declare split_parts.simps [simp del]

definition str_split :: "string \<Rightarrow> string \<Rightarrow> string list" where
  "str_split s sep = split_parts sep s"

section \<open>asset\_check\_factories/utils.py: seconds\_in\_words\<close>








section \<open>remote\_representation/external.py: CompoundID\<close>

definition DELIMITER :: string where
  "DELIMITER = ''::''"

record CompoundID =
  remote_origin_id :: string
  selector_id :: string

definition to_string :: "CompoundID \<Rightarrow> string" where
  "to_string c = remote_origin_id c @ DELIMITER @ selector_id c"

definition from_string :: "string \<Rightarrow> error + CompoundID" where
  "from_string serialized =
     (let parts = str_split serialized DELIMITER
      in if length parts \<noteq> 2
         then Inl (DagsterInvariantViolationError
                     (''Invalid serialized InstigatorID: '' @ serialized))
         else Inr \<lparr>remote_origin_id = parts ! 0, selector_id = parts ! 1\<rparr>)"

definition is_valid_string :: "string \<Rightarrow> bool" where
  "is_valid_string serialized = (length (str_split serialized DELIMITER) = 2)"

section \<open>asset\_check\_factories/utils.py: duplicate assets\<close>

text \<open>
  \<open>check.invariant(condition, desc)\<close> (module \<open>dagster._check\<close>, not among the sources)
  raises a \<open>CheckError\<close> carrying the description when the condition is false.
\<close>

definition check_invariant :: "bool \<Rightarrow> string \<Rightarrow> error + unit" where
  "check_invariant condition desc = (if condition then Inr () else Inl (CheckError desc))"

text \<open>
  An entry of the list is an \<open>AssetsDefinition\<close> (with its \<open>keys\<close>, a set: the list holds
  its elements in iteration order), a \<open>SourceAsset\<close> (with its \<open>key\<close>) or a value coercible
  to an asset key. \<open>AssetKey.from_coercible_or_definition\<close> is not among the sources
  and is a parameter, as is the \<open>repr\<close> of a list of keys used in the message.
\<close>

datatype ('k, 'c) asset =
    AssetsDefinition "'k list"
  | SourceAsset 'k
  | Coercible 'c

fun asset_to_keys_iterable :: "('c \<Rightarrow> 'k) \<Rightarrow> ('k, 'c) asset \<Rightarrow> 'k list" where
  "asset_to_keys_iterable from_coercible (AssetsDefinition keys) = keys"
| "asset_to_keys_iterable from_coercible (SourceAsset key) = [key]"
| "asset_to_keys_iterable from_coercible (Coercible a) = [from_coercible a]"

definition assets_to_keys :: "('c \<Rightarrow> 'k) \<Rightarrow> ('k, 'c) asset list \<Rightarrow> 'k list" where
  "assets_to_keys from_coercible assets =
     concat (map (asset_to_keys_iterable from_coercible) assets)"

definition duplicates :: "'k list \<Rightarrow> 'k list" where
  "duplicates asset_keys = filter (\<lambda>asset_key. count_list asset_keys asset_key > 1) asset_keys"

definition ensure_no_duplicate_assets ::
  "('c \<Rightarrow> 'k) \<Rightarrow> ('k list \<Rightarrow> string) \<Rightarrow> ('k, 'c) asset list \<Rightarrow> error + unit" where
  "ensure_no_duplicate_assets from_coercible repr assets =
     (let asset_keys = assets_to_keys from_coercible assets;
          duplicate_assets = duplicates asset_keys
      in check_invariant (length duplicate_assets = 0)
           (''Found duplicate assets in the provided list of assets: '' @ repr duplicate_assets @
            ''. Please ensure that each asset is unique.''))"

section \<open>asset\_check\_factories/utils.py: the latest record of an asset\<close>

type_synonym AssetKey = "string list"

datatype DagsterEventType = ASSET_MATERIALIZATION | ASSET_OBSERVATION

text \<open>
  A metadata entry's \<open>value\<close> is a float or something else. Timestamps are Python floats,
  modelled as reals: they are only compared, never computed with (\<open>NaN\<close> is left out).
\<close>

datatype MetadataValue = FloatMetadataValue real | TextMetadataValue string

record EventLogRecord =
  storage_id :: nat
  timestamp :: real
  dagster_event_type :: DagsterEventType
  asset_key :: AssetKey
  event_partition_key :: "string option"
  metadata :: "(string \<times> MetadataValue) list"












section \<open>remote\_representation/external.py: the default automation sensor\<close>

datatype SensorType =
    STANDARD | RUN_STATUS | ASSET | MULTI_ASSET | FRESHNESS_POLICY
  | AUTO_MATERIALIZE | AUTOMATION | UNKNOWN

text \<open>An entity key is an asset key or an asset check key (an asset key and a check name).\<close>

datatype EntityKey = EAssetKey AssetKey | EAssetCheckKey AssetKey string


text \<open>
  The remote asset graph, as far as \<open>_external_sensors\<close> reads it: three key sets and,
  per key, the node's automation condition and auto-observe interval.
\<close>

record 'c node =
  automation_condition :: "'c option"
  auto_observe_interval_minutes :: "real option"

record 'c asset_graph =
  materializable_asset_keys :: "EntityKey set"
  asset_check_keys :: "EntityKey set"
  observable_asset_keys :: "EntityKey set"
  get :: "EntityKey \<Rightarrow> 'c node"














section \<open>asset\_condition\_tests/test\_result\_value\_hash.py\<close>















section \<open>The evaluator of scheduling conditions\<close>

text \<open>
  \<open>test_user_space_ds_api.py\<close> runs one tick of \<open>SchedulingConditionEvaluator\<close>, which
  is not among the sources, like the conditions and the cursor. The definitions of this
  section follow the specification document (sections 3 and 4).
\<close>

type_synonym AssetKeyPartitionKey = "AssetKey \<times> string option"

text \<open>
  Modelled from the spec: "AssetKey: ... path of string segments ... equality/ordering by
  path". The lexical order on strings and on paths.
\<close>

fun string_less :: "string \<Rightarrow> string \<Rightarrow> bool" where
  "string_less _ [] = False"
| "string_less [] (_ # _) = True"
| "string_less (x # xs) (y # ys) =
     ((of_char x :: nat) < of_char y \<or> (x = y \<and> string_less xs ys))"

fun path_less :: "AssetKey \<Rightarrow> AssetKey \<Rightarrow> bool" where
  "path_less _ [] = False"
| "path_less [] (_ # _) = True"
| "path_less (x # xs) (y # ys) = (string_less x y \<or> (x = y \<and> path_less xs ys))"

text \<open>
  Modelled from the spec: the condition tree, with the leaf predicates "is missing" and
  "parent updated since cursor", the combinators AND, OR, NOT, and "since" (a trigger and
  a reset condition).
\<close>

datatype AssetCondition =
    MissingCondition
  | ParentUpdatedCondition
  | AndCondition AssetCondition AssetCondition
  | OrCondition AssetCondition AssetCondition
  | NotCondition AssetCondition
  | SinceCondition AssetCondition AssetCondition

text \<open>Modelled from the spec: "eager" is "materialize if missing or parent updated".\<close>

definition eager_condition :: AssetCondition where
  "eager_condition = OrCondition MissingCondition ParentUpdatedCondition"

text \<open>
  Modelled from the spec: the identity of a node is "computed from its kind, parameters,
  and children's hashes".
\<close>

fun condition_value_hash :: "AssetCondition \<Rightarrow> string" where
  "condition_value_hash MissingCondition = ''missing''"
| "condition_value_hash ParentUpdatedCondition = ''parent_updated''"
| "condition_value_hash (AndCondition a b) =
     ''and('' @ condition_value_hash a @ '','' @ condition_value_hash b @ '')''"
| "condition_value_hash (OrCondition a b) =
     ''or('' @ condition_value_hash a @ '','' @ condition_value_hash b @ '')''"
| "condition_value_hash (NotCondition a) = ''not('' @ condition_value_hash a @ '')''"
| "condition_value_hash (SinceCondition a b) =
     ''since('' @ condition_value_hash a @ '','' @ condition_value_hash b @ '')''"

text \<open>
  Modelled from the spec: an evaluation records "the condition's value hash, the resulting
  true-subset, per-child sub-evaluations". The true-subset is a set of partition keys of
  the one asset, \<open>None\<close> being the partition of an unpartitioned asset. The subset that
  "since" carries to the next tick is its true-subset, so there is no other payload.
\<close>

datatype AssetConditionEvaluation =
  AssetConditionEvaluation (evaluation_value_hash: string)
    (true_subset: "string option set") (child_evaluations: "AssetConditionEvaluation list")

record AssetConditionEvaluationState =
  state_asset_key :: AssetKey
  state_evaluation :: AssetConditionEvaluation

text \<open>
  Modelled from the spec: the cursor holds "a monotonically increasing evaluation id, a
  mapping from AssetKey to its latest AssetConditionEvaluationState, and a timestamp
  watermark"; it is "created empty at system start".
\<close>

record AssetDaemonCursor =
  evaluation_id :: nat
  asset_states :: "(AssetKey \<times> AssetConditionEvaluation) list"
  watermark :: "real option"

definition empty_cursor :: AssetDaemonCursor where
  "empty_cursor = \<lparr>evaluation_id = 0, asset_states = [], watermark = None\<rparr>"

text \<open>
  Modelled from the spec: the asset graph gives each asset its parents, its currently
  valid partitions and its condition; the event history is the list of materializations
  (time, asset, partition).
\<close>

record AssetNode =
  node_key :: AssetKey
  parent_keys :: "AssetKey list"
  valid_partitions :: "string option list"
  node_condition :: AssetCondition

type_synonym MaterializationEvent = "real \<times> AssetKey \<times> string option"

text \<open>
  Modelled from the spec: the evaluation context "bundles the candidate subset being
  considered, read access to the asset graph view" and the history, and the true-subsets
  of this tick made "visible to downstream assets' evaluation context".
\<close>

record EvaluationContext =
  context_key :: AssetKey
  context_parents :: "AssetKey list"
  candidate_subset :: "string option set"
  context_history :: "MaterializationEvent list"
  context_watermark :: "real option"
  requested_so_far :: "AssetKeyPartitionKey set"

text \<open>
  Modelled from the spec: a partition is missing when the history has no materialization
  of it.
\<close>

definition is_missing :: "EvaluationContext \<Rightarrow> string option \<Rightarrow> bool" where
  "is_missing ctx p =
     (\<not> (\<exists>e \<in> set (context_history ctx). fst (snd e) = context_key ctx \<and> snd (snd e) = p))"

text \<open>
  Modelled from the spec: a parent is updated when it was requested earlier in this tick
  ("parent updated conditions observe this tick's decisions, not only committed history")
  or materialized after the cursor's watermark (every materialization, for a cursor
  without watermark).
\<close>

definition parent_updated :: "EvaluationContext \<Rightarrow> AssetKey \<Rightarrow> bool" where
  "parent_updated ctx parent =
     ((\<exists>r \<in> requested_so_far ctx. fst r = parent) \<or>
      (\<exists>e \<in> set (context_history ctx).
         fst (snd e) = parent \<and>
         (case context_watermark ctx of None \<Rightarrow> True | Some w \<Rightarrow> w < fst e)))"

text \<open>
  Modelled from the spec: the previous evaluation of a node is "matched by matching value
  hash; on mismatch, treated as no prior state", for that node only.
\<close>

definition matching_previous ::
  "AssetConditionEvaluation option \<Rightarrow> string \<Rightarrow> AssetConditionEvaluation option" where
  "matching_previous previous h =
     (case previous of
        None \<Rightarrow> None
      | Some e \<Rightarrow> if evaluation_value_hash e = h then Some e else None)"

definition previous_child ::
  "AssetConditionEvaluation option \<Rightarrow> nat \<Rightarrow> AssetConditionEvaluation option" where
  "previous_child previous i =
     (case previous of
        None \<Rightarrow> None
      | Some e \<Rightarrow> if i < length (child_evaluations e) then Some (child_evaluations e ! i)
                  else None)"

text \<open>
  Modelled from the spec: "AND intersects children's true-subsets, OR unions them, NOT
  inverts within the candidate subset"; for since,
  \<open>result = (result - reset_true_subset) | trigger_true_subset\<close>, "seeded from prior
  tick's stored subset, or empty on cold start". All children are always evaluated.
\<close>

fun evaluate_condition ::
  "EvaluationContext \<Rightarrow> AssetConditionEvaluation option \<Rightarrow> AssetCondition \<Rightarrow>
   AssetConditionEvaluation" where
  "evaluate_condition ctx previous MissingCondition =
     AssetConditionEvaluation (condition_value_hash MissingCondition)
       (Set.filter (is_missing ctx) (candidate_subset ctx)) []"
| "evaluate_condition ctx previous ParentUpdatedCondition =
     AssetConditionEvaluation (condition_value_hash ParentUpdatedCondition)
       (if \<exists>parent \<in> set (context_parents ctx). parent_updated ctx parent
        then candidate_subset ctx else {}) []"
| "evaluate_condition ctx previous (AndCondition a b) =
     (let ea = evaluate_condition ctx (previous_child previous 0) a;
          eb = evaluate_condition ctx (previous_child previous 1) b
      in AssetConditionEvaluation (condition_value_hash (AndCondition a b))
           (true_subset ea \<inter> true_subset eb) [ea, eb])"
| "evaluate_condition ctx previous (OrCondition a b) =
     (let ea = evaluate_condition ctx (previous_child previous 0) a;
          eb = evaluate_condition ctx (previous_child previous 1) b
      in AssetConditionEvaluation (condition_value_hash (OrCondition a b))
           (true_subset ea \<union> true_subset eb) [ea, eb])"
| "evaluate_condition ctx previous (NotCondition a) =
     (let ea = evaluate_condition ctx (previous_child previous 0) a
      in AssetConditionEvaluation (condition_value_hash (NotCondition a))
           (candidate_subset ctx - true_subset ea) [ea])"
| "evaluate_condition ctx previous (SinceCondition trigger reset) =
     (let et = evaluate_condition ctx (previous_child previous 0) trigger;
          er = evaluate_condition ctx (previous_child previous 1) reset;
          seed = (case matching_previous previous
                         (condition_value_hash (SinceCondition trigger reset)) of
                    None \<Rightarrow> {}
                  | Some e \<Rightarrow> true_subset e)
      in AssetConditionEvaluation (condition_value_hash (SinceCondition trigger reset))
           ((seed - true_subset er) \<union> true_subset et) [et, er])"

text \<open>
  Modelled from the spec: step 1, "topologically sort the candidate asset keys (ties
  broken by stable lexical order of AssetKey)". Among the remaining keys none of whose
  parents remains, the least goes next; when there is none (the dependencies have a
  cycle) there is no order.
\<close>

definition parents_of :: "AssetNode list \<Rightarrow> AssetKey \<Rightarrow> AssetKey list" where
  "parents_of asset_graph k =
     (case find (\<lambda>n. node_key n = k) asset_graph of None \<Rightarrow> [] | Some n \<Rightarrow> parent_keys n)"

definition is_ready :: "AssetNode list \<Rightarrow> AssetKey list \<Rightarrow> AssetKey \<Rightarrow> bool" where
  "is_ready asset_graph remaining k =
     list_all (\<lambda>parent. parent \<notin> set remaining) (parents_of asset_graph k)"

fun least_key :: "AssetKey \<Rightarrow> AssetKey list \<Rightarrow> AssetKey" where
  "least_key k [] = k"
| "least_key k (k' # ks) = least_key (if path_less k' k then k' else k) ks"

lemma least_key_in: "least_key k ks \<in> set (k # ks)"
  by (induction ks arbitrary: k) auto

lemma next_key_remaining:
  assumes "filter (is_ready asset_graph remaining) remaining = k # ks"
  shows "least_key k ks \<in> set remaining"
proof -
  have "least_key k ks \<in> set (filter (is_ready asset_graph remaining) remaining)"
    unfolding assms by (rule least_key_in)
  then show ?thesis by simp
qed

function topological_order ::
  "AssetNode list \<Rightarrow> AssetKey list \<Rightarrow> AssetKey list \<Rightarrow> AssetKey list option" where
  "topological_order asset_graph remaining ordered =
     (if remaining = [] then Some ordered
      else (case filter (is_ready asset_graph remaining) remaining of
              [] \<Rightarrow> None
            | k # ks \<Rightarrow>
                topological_order asset_graph (removeAll (least_key k ks) remaining)
                  (ordered @ [least_key k ks])))"
  by pat_completeness auto
termination
proof (relation "measure (\<lambda>(asset_graph, remaining, ordered). length remaining)")
  show "wf (measure (\<lambda>(asset_graph, remaining, ordered). length remaining))" by simp
next
  fix asset_graph :: "AssetNode list" and remaining ordered :: "AssetKey list" and k ks
  assume "remaining \<noteq> []"
    and "filter (is_ready asset_graph remaining) remaining = k # ks"
  then have "least_key k ks \<in> set remaining" by (simp add: next_key_remaining)
  then have "length (removeAll (least_key k ks) remaining) < length remaining"
    by (rule length_removeAll_less)
  then show "((asset_graph, removeAll (least_key k ks) remaining, ordered @ [least_key k ks]),
              (asset_graph, remaining, ordered))
             \<in> measure (\<lambda>(asset_graph, remaining, ordered). length remaining)"
    by simp
qed

declare topological_order.simps [simp del]

text \<open>
  Modelled from the spec: step 2, "for each asset in order: build candidate subset =
  (asset's currently valid partitions) ...; evaluate its condition tree; record the
  per-asset evaluation state; make the resulting true-subset visible to downstream assets'
  evaluation context this same tick". No scope restriction is supplied. A key that the
  graph does not know has no partitions and gets no state.
\<close>

fun evaluate_assets ::
  "AssetNode list \<Rightarrow> MaterializationEvent list \<Rightarrow> AssetDaemonCursor \<Rightarrow> AssetKey list \<Rightarrow>
   AssetConditionEvaluationState list \<times> AssetKeyPartitionKey set \<Rightarrow>
   AssetConditionEvaluationState list \<times> AssetKeyPartitionKey set" where
  "evaluate_assets asset_graph history cursor [] acc = acc"
| "evaluate_assets asset_graph history cursor (k # ks) (evaluation_states, requested_subset) =
     (case find (\<lambda>n. node_key n = k) asset_graph of
        None \<Rightarrow>
          evaluate_assets asset_graph history cursor ks (evaluation_states, requested_subset)
      | Some n \<Rightarrow>
          (let e = evaluate_condition
                     \<lparr>context_key = k, context_parents = parent_keys n,
                      candidate_subset = set (valid_partitions n),
                      context_history = history, context_watermark = watermark cursor,
                      requested_so_far = requested_subset\<rparr>
                     (map_of (asset_states cursor) k) (node_condition n)
           in evaluate_assets asset_graph history cursor ks
                (evaluation_states @ [\<lparr>state_asset_key = k, state_evaluation = e\<rparr>],
                 requested_subset \<union> {k} \<times> true_subset e)))"

text \<open>
  Modelled from the spec: the contract
  \<open>evaluate(asset_graph, candidate_asset_keys, cursor) -> (evaluation_states, requested_subset)\<close>
  with steps 1 to 4; step 4 is "build a new cursor from the collected evaluation states,
  incrementing the evaluation id". The history and the time of the tick are arguments.
\<close>

definition evaluate ::
  "AssetNode list \<Rightarrow> MaterializationEvent list \<Rightarrow> real \<Rightarrow> AssetKey list \<Rightarrow> AssetDaemonCursor \<Rightarrow>
   (AssetConditionEvaluationState list \<times> AssetKeyPartitionKey set \<times> AssetDaemonCursor) option"
  where
  "evaluate asset_graph history now candidate_asset_keys cursor =
     (case topological_order asset_graph candidate_asset_keys [] of
        None \<Rightarrow> None
      | Some ordered \<Rightarrow>
          (case evaluate_assets asset_graph history cursor ordered ([], {}) of
             (evaluation_states, requested_subset) \<Rightarrow>
               Some (evaluation_states, requested_subset,
                     \<lparr>evaluation_id = Suc (evaluation_id cursor),
                      asset_states = map (\<lambda>s. (state_asset_key s, state_evaluation s))
                                       evaluation_states,
                      watermark = Some now\<rparr>)))"

text \<open>
  The definitions of \<open>test_basic_asset_scheduling_test\<close>: \<open>upstream\<close> and \<open>downstream\<close>
  (which depends on \<open>upstream\<close>), both unpartitioned, both with the eager policy.
\<close>

definition upstream_downstream_graph :: "AssetNode list" where
  "upstream_downstream_graph =
     [\<lparr>node_key = [''upstream''], parent_keys = [], valid_partitions = [None],
       node_condition = eager_condition\<rparr>,
      \<lparr>node_key = [''downstream''], parent_keys = [[''upstream'']], valid_partitions = [None],
       node_condition = eager_condition\<rparr>]"

section \<open>Verification\<close>

subsection \<open>Evaluation rules for the Python primitives\<close>








subsection \<open>seconds\_in\_words\<close>














subsection \<open>CompoundID: splitting on the delimiter\<close>

lemma find_first_None: "sep \<noteq> [] \<Longrightarrow> find_first sep s = None \<longleftrightarrow> \<not> sublist sep s"
  by (induction s) (auto simp: sublist_Cons_right split: option.splits)

lemma not_sublist_butlast: "sep \<noteq> [] \<Longrightarrow> \<not> sublist sep (butlast sep)"
proof
  assume ne: "sep \<noteq> []" and "sublist sep (butlast sep)"
  then obtain ps ss where "butlast sep = ps @ sep @ ss" by (auto simp: sublist_def)
  then have "length (butlast sep) = length ps + length sep + length ss" by simp
  moreover have "length (butlast sep) < length sep" using ne by (simp add: length_greater_0_conv)
  ultimately show False by linarith
qed

lemma prefix_butlast_ext: "sep \<noteq> [] \<Longrightarrow> prefix (p @ butlast sep) (p @ sep @ r)"
proof -
  assume "sep \<noteq> []"
  then have "sep = butlast sep @ [last sep]" by simp
  then have "p @ sep @ r = (p @ butlast sep) @ ([last sep] @ r)"
    by (metis append_assoc)
  then show ?thesis by (simp only: prefixI)
qed


lemma find_first_leftmost:
  "sep \<noteq> [] \<Longrightarrow> find_first sep s = Some (p, r) \<Longrightarrow> \<not> sublist sep (p @ butlast sep)"
proof (induction s arbitrary: p)
  case Nil
  then show ?case by simp
next
  case (Cons c cs)
  show ?case
  proof (cases "prefix sep (c # cs)")
    case True
    with Cons.prems have "p = []" by simp
    with Cons.prems(1) show ?thesis by (simp add: not_sublist_butlast)
  next
    case False
    with Cons.prems obtain p' where p': "find_first sep cs = Some (p', r)" "p = c # p'"
      by (auto split: option.splits)
    have dec: "cs = p' @ sep @ r" using p'(1) by (rule find_first_decomp)
    have "\<not> prefix sep (c # p' @ butlast sep)"
    proof
      assume "prefix sep (c # p' @ butlast sep)"
      moreover have "prefix (c # p' @ butlast sep) (c # cs)"
        using prefix_butlast_ext [OF Cons.prems(1), of p' r] dec by simp
      ultimately have "prefix sep (c # cs)" by (rule prefix_order.trans)
      with False show False by simp
    qed
    moreover have "\<not> sublist sep (p' @ butlast sep)"
      using Cons.IH [OF Cons.prems(1) p'(1)] .
    ultimately show ?thesis using p'(2) by (simp add: sublist_Cons_right)
  qed
qed

lemma find_first_at:
  "sep \<noteq> [] \<Longrightarrow> \<not> sublist sep (p @ butlast sep) \<Longrightarrow> find_first sep (p @ sep @ r) = Some (p, r)"
proof (induction p)
  case Nil
  then obtain c cs where "sep = c # cs" by (cases sep) auto
  then show ?case by simp
next
  case (Cons c p)
  have np: "\<not> prefix sep (c # p @ butlast sep)" and ns: "\<not> sublist sep (p @ butlast sep)"
    using Cons.prems(2) by (auto simp: sublist_Cons_right)
  have "\<not> prefix sep (c # p @ sep @ r)"
  proof
    assume a: "prefix sep (c # p @ sep @ r)"
    have b: "prefix (c # p @ butlast sep) (c # p @ sep @ r)"
      using prefix_butlast_ext [OF Cons.prems(1), of p r] by simp
    have "length sep \<le> length (c # p @ butlast sep)" by simp
    with a b have "prefix sep (c # p @ butlast sep)"
      by (rule prefix_length_prefix)
    with np show False by simp
  qed
  with Cons.IH [OF Cons.prems(1) ns] show ?case by simp
qed


lemma split_parts_none: "sep \<noteq> [] \<Longrightarrow> \<not> sublist sep s \<Longrightarrow> split_parts sep s = [s]"
proof -
  assume "sep \<noteq> []" "\<not> sublist sep s"
  then have "find_first sep s = None" by (simp add: find_first_None)
  then show ?thesis by (subst split_parts.simps) simp
qed

lemma split_parts_some:
  "sep \<noteq> [] \<Longrightarrow> find_first sep s = Some (p, r) \<Longrightarrow> split_parts sep s = p # split_parts sep r"
  by (subst split_parts.simps) simp

lemma split_parts_nonempty: "split_parts sep s \<noteq> []"
  by (subst split_parts.simps) (auto split: option.splits)

lemma split_parts_two:
  assumes "sep \<noteq> []"
  shows "split_parts sep s = [a, b] \<longleftrightarrow> find_first sep s = Some (a, b) \<and> \<not> sublist sep b"
proof
  assume two: "split_parts sep s = [a, b]"
  show "find_first sep s = Some (a, b) \<and> \<not> sublist sep b"
  proof (cases "find_first sep s")
    case None
    then have "split_parts sep s = [s]" by (subst split_parts.simps) simp
    with two show ?thesis by simp
  next
    case (Some pr)
    obtain p r where pr: "pr = (p, r)" by (cases pr)
    with Some assms have "split_parts sep s = p # split_parts sep r"
      by (simp add: split_parts_some)
    with two have p: "p = a" and rest: "split_parts sep r = [b]" by simp_all
    have "find_first sep r = None"
    proof (cases "find_first sep r")
      case None
      then show ?thesis .
    next
      case (Some qr)
      obtain q r' where "qr = (q, r')" by (cases qr)
      with Some assms have "split_parts sep r = q # split_parts sep r'"
        by (simp add: split_parts_some)
      with rest have "split_parts sep r' = []" by simp
      then show ?thesis by (simp add: split_parts_nonempty)
    qed
    then have ns: "\<not> sublist sep r" using assms by (simp add: find_first_None)
    with assms rest have "r = b" by (simp add: split_parts_none)
    with Some pr p ns show ?thesis by simp
  qed
next
  assume "find_first sep s = Some (a, b) \<and> \<not> sublist sep b"
  with assms show "split_parts sep s = [a, b]"
    by (simp add: split_parts_some split_parts_none)
qed

lemma find_first_between:
  "sep \<noteq> [] \<Longrightarrow> find_first sep (a @ sep @ b) = Some (a, b) \<longleftrightarrow> \<not> sublist sep (a @ butlast sep)"
  using find_first_leftmost find_first_at by blast

lemma delimiter_overlap:
  "sublist ''::'' (a @ '':'') \<longleftrightarrow> sublist ''::'' a \<or> suffix '':'' a"
proof -
  have "suffix ('':'' @ [CHR '':'']) (a @ [CHR '':'']) \<longleftrightarrow> suffix '':'' a"
    by (simp only: snoc_suffix_snoc) simp
  then show ?thesis
    using sublist_snoc [of "''::''" a "CHR '':''"] by auto
qed

lemma from_string_parts:
  "from_string s = Inr \<lparr>remote_origin_id = a, selector_id = b\<rparr> \<longleftrightarrow>
   str_split s DELIMITER = [a, b]"
proof -
  have "length xs = 2 \<and> xs ! 0 = a \<and> xs ! 1 = b \<longleftrightarrow> xs = [a, b]" for xs :: "string list"
  proof (cases xs)
    case Nil
    then show ?thesis by simp
  next
    case (Cons x ys)
    then show ?thesis by (cases ys) auto
  qed
  then show ?thesis by (auto simp: from_string_def Let_def)
qed

lemma roundtrip_iff:
  "from_string (to_string \<lparr>remote_origin_id = a, selector_id = b\<rparr>) =
     Inr \<lparr>remote_origin_id = a, selector_id = b\<rparr> \<longleftrightarrow>
   \<not> sublist DELIMITER a \<and> \<not> suffix '':'' a \<and> \<not> sublist DELIMITER b"
proof -
  have ne: "DELIMITER \<noteq> []" by (simp add: DELIMITER_def)
  have bl: "butlast DELIMITER = '':''" by (simp add: DELIMITER_def)
  have "str_split (a @ DELIMITER @ b) DELIMITER = [a, b] \<longleftrightarrow>
        \<not> sublist DELIMITER (a @ '':'') \<and> \<not> sublist DELIMITER b"
    unfolding str_split_def split_parts_two [OF ne] find_first_between [OF ne] bl ..
  then show ?thesis
    unfolding from_string_parts to_string_def
    by (simp add: delimiter_overlap DELIMITER_def)
qed

lemma from_string_raises:
  "(\<exists>e. from_string s = Inl e) \<longleftrightarrow> length (str_split s DELIMITER) \<noteq> 2"
  by (auto simp: from_string_def Let_def)

lemma from_string_valid:
  "from_string s =
     (if is_valid_string s
      then Inr \<lparr>remote_origin_id = str_split s DELIMITER ! 0,
                selector_id = str_split s DELIMITER ! 1\<rparr>
      else Inl (DagsterInvariantViolationError (''Invalid serialized InstigatorID: '' @ s)))"
  by (simp add: from_string_def is_valid_string_def Let_def)

text \<open>
  Claim C9, as stated, at \<open>remote_origin_id = "a:"\<close>, \<open>selector_id = "b"\<close>: neither
  contains \<open>"::"\<close>, yet \<open>to_string\<close> gives \<open>"a:::b"\<close>, whose leftmost \<open>"::"\<close> starts
  inside the first component; \<open>from_string\<close> returns \<open>("a", ":b")\<close>.
\<close>

theorem compound_id_roundtrip_breaks_on_trailing_colon:
  "\<not> sublist DELIMITER ''a:'' \<and> \<not> sublist DELIMITER ''b'' \<and>
   from_string (to_string \<lparr>remote_origin_id = ''a:'', selector_id = ''b''\<rparr>) =
     Inr \<lparr>remote_origin_id = ''a'', selector_id = '':b''\<rparr> \<and>
   from_string (to_string \<lparr>remote_origin_id = ''a:'', selector_id = ''b''\<rparr>) \<noteq>
     Inr \<lparr>remote_origin_id = ''a:'', selector_id = ''b''\<rparr>"
  by (simp add: from_string_parts to_string_def str_split_def DELIMITER_def
      split_parts.simps sublist_Cons_right)

text \<open>
  Claim C9, amended: \<open>from_string (to_string id) = id\<close> holds exactly when
  \<open>remote_origin_id\<close> contains no \<open>"::"\<close> and does not end with \<open>":"\<close>, and
  \<open>selector_id\<close> contains no \<open>"::"\<close>; and \<open>from_string s\<close> raises
  \<open>DagsterInvariantViolationError\<close> exactly when splitting \<open>s\<close> on \<open>"::"\<close> does not
  yield exactly two parts, that is exactly when \<open>is_valid_string s\<close> is false.
\<close>

theorem compound_id_roundtrip:
  "(from_string (to_string c) = Inr c \<longleftrightarrow>
      \<not> sublist DELIMITER (remote_origin_id c) \<and> \<not> suffix '':'' (remote_origin_id c) \<and>
      \<not> sublist DELIMITER (selector_id c)) \<and>
   ((\<exists>e. from_string s = Inl e) \<longleftrightarrow> length (str_split s DELIMITER) \<noteq> 2) \<and>
   ((\<exists>e. from_string s = Inl e) \<longleftrightarrow> \<not> is_valid_string s) \<and>
   from_string s =
     (if is_valid_string s
      then Inr \<lparr>remote_origin_id = str_split s DELIMITER ! 0,
                selector_id = str_split s DELIMITER ! 1\<rparr>
      else Inl (DagsterInvariantViolationError (''Invalid serialized InstigatorID: '' @ s)))"
proof -
  have c: "c = \<lparr>remote_origin_id = remote_origin_id c, selector_id = selector_id c\<rparr>" by simp
  have "from_string (to_string c) = Inr c \<longleftrightarrow>
      \<not> sublist DELIMITER (remote_origin_id c) \<and> \<not> suffix '':'' (remote_origin_id c) \<and>
      \<not> sublist DELIMITER (selector_id c)"
    by (subst (1 2) c) (rule roundtrip_iff)
  moreover have "(\<exists>e. from_string s = Inl e) \<longleftrightarrow> \<not> is_valid_string s"
    by (simp add: from_string_raises is_valid_string_def)
  ultimately show ?thesis
    using from_string_raises [of s] from_string_valid [of s] by blast
qed

theorem compound_id_roundtrip_witness:
  "from_string (to_string \<lparr>remote_origin_id = ''abc'', selector_id = ''def''\<rparr>) =
     Inr \<lparr>remote_origin_id = ''abc'', selector_id = ''def''\<rparr> \<and>
   (\<exists>e. from_string ''x::y::z'' = Inl e) \<and> \<not> is_valid_string ''x::y::z''"
proof -
  have 1: "\<not> sublist DELIMITER ''abc'' \<and> \<not> suffix '':'' ''abc'' \<and> \<not> sublist DELIMITER ''def''"
    by (simp add: DELIMITER_def sublist_Cons_right suffix_Cons)
  have 2: "length (str_split ''x::y::z'' DELIMITER) \<noteq> 2"
    by (simp add: str_split_def DELIMITER_def split_parts.simps)
  note T = compound_id_roundtrip
      [of "\<lparr>remote_origin_id = ''abc'', selector_id = ''def''\<rparr>" "''x::y::z''"]
  have A: "from_string (to_string \<lparr>remote_origin_id = ''abc'', selector_id = ''def''\<rparr>) =
     Inr \<lparr>remote_origin_id = ''abc'', selector_id = ''def''\<rparr>"
    using T [THEN conjunct1] 1 by simp
  have B: "\<exists>e. from_string ''x::y::z'' = Inl e"
    using T [THEN conjunct2, THEN conjunct1] 2 by (rule iffD2)
  have C: "\<not> is_valid_string ''x::y::z''"
    using T [THEN conjunct2, THEN conjunct2, THEN conjunct1] B by (rule iffD1)
  from A B C show ?thesis by (intro conjI)
qed

subsection \<open>ensure\_no\_duplicate\_assets\<close>

lemma count_list_le_one_iff_distinct: "(\<forall>x \<in> set xs. count_list xs x \<le> 1) \<longleftrightarrow> distinct xs"
proof (induction xs)
  case Nil
  then show ?case by simp
next
  case (Cons a xs)
  show ?case
  proof
    assume h: "\<forall>x \<in> set (a # xs). count_list (a # xs) x \<le> 1"
    then have "count_list xs a = 0" by auto
    then have na: "a \<notin> set xs" by (simp add: count_list_0_iff)
    have "\<forall>x \<in> set xs. count_list xs x \<le> 1"
    proof
      fix x assume x: "x \<in> set xs"
      with h have "count_list (a # xs) x \<le> 1" by simp
      then show "count_list xs x \<le> 1" by (simp split: if_splits)
    qed
    with Cons.IH na show "distinct (a # xs)" by simp
  next
    assume d: "distinct (a # xs)"
    then have "count_list xs a = 0" by (simp add: count_list_0_iff)
    moreover have "\<forall>x \<in> set xs. count_list xs x \<le> 1" using d Cons.IH by simp
    ultimately show "\<forall>x \<in> set (a # xs). count_list (a # xs) x \<le> 1" using d by auto
  qed
qed

lemma duplicates_empty_iff: "duplicates xs = [] \<longleftrightarrow> distinct xs"
proof -
  have "duplicates xs = [] \<longleftrightarrow> (\<forall>x \<in> set xs. count_list xs x \<le> 1)"
    by (auto simp: duplicates_def filter_empty_conv not_less)
  then show ?thesis using count_list_le_one_iff_distinct [of xs] by simp
qed

lemma distinct_concat_index:
  "distinct (concat xss) \<longleftrightarrow>
     (\<forall>ys \<in> set xss. distinct ys) \<and>
     (\<forall>i j. i < j \<and> j < length xss \<longrightarrow> set (xss ! i) \<inter> set (xss ! j) = {})"
proof (induction xss)
  case Nil
  then show ?case by simp
next
  case (Cons xs xss)
  have step: "(\<forall>i j. i < j \<and> j < length (xs # xss) \<longrightarrow> set ((xs # xss) ! i) \<inter> set ((xs # xss) ! j) = {}) \<longleftrightarrow>
        (\<forall>j < length xss. set xs \<inter> set (xss ! j) = {}) \<and>
        (\<forall>i j. i < j \<and> j < length xss \<longrightarrow> set (xss ! i) \<inter> set (xss ! j) = {})"
    (is "?L \<longleftrightarrow> ?A \<and> ?B")
  proof
    assume L: ?L
    have ?A
    proof (intro allI impI)
      fix j assume "j < length xss"
      with L [rule_format, of 0 "Suc j"] show "set xs \<inter> set (xss ! j) = {}" by simp
    qed
    moreover have ?B
    proof (intro allI impI)
      fix i j assume "i < j \<and> j < length xss"
      with L [rule_format, of "Suc i" "Suc j"] show "set (xss ! i) \<inter> set (xss ! j) = {}" by simp
    qed
    ultimately show "?A \<and> ?B" ..
  next
    assume AB: "?A \<and> ?B"
    show ?L
    proof (intro allI impI)
      fix i j assume ij: "i < j \<and> j < length (xs # xss)"
      then obtain j' where j': "j = Suc j'" by (cases j) auto
      show "set ((xs # xss) ! i) \<inter> set ((xs # xss) ! j) = {}"
      proof (cases i)
        case 0
        with AB ij j' show ?thesis by simp
      next
        case (Suc i')
        with AB ij j' show ?thesis by simp
      qed
    qed
  qed
  have A: "(\<forall>j < length xss. set xs \<inter> set (xss ! j) = {}) \<longleftrightarrow>
           (\<forall>ys \<in> set xss. set xs \<inter> set ys = {})"
    by (simp add: all_set_conv_all_nth)
  have B: "(\<forall>ys \<in> set xss. set xs \<inter> set ys = {}) \<longleftrightarrow> set xs \<inter> set (concat xss) = {}"
    by auto
  have "distinct (concat (xs # xss)) \<longleftrightarrow>
        distinct xs \<and> distinct (concat xss) \<and> set xs \<inter> set (concat xss) = {}"
    by simp
  also have "\<dots> \<longleftrightarrow> distinct xs \<and> ((\<forall>ys \<in> set xss. distinct ys) \<and>
        (\<forall>i j. i < j \<and> j < length xss \<longrightarrow> set (xss ! i) \<inter> set (xss ! j) = {})) \<and>
        (\<forall>j < length xss. set xs \<inter> set (xss ! j) = {})"
    by (simp only: Cons.IH A B)
  also have "\<dots> \<longleftrightarrow> (\<forall>ys \<in> set (xs # xss). distinct ys) \<and>
        (\<forall>i j. i < j \<and> j < length (xs # xss) \<longrightarrow>
           set ((xs # xss) ! i) \<inter> set ((xs # xss) ! j) = {})"
    unfolding step by auto
  finally show ?case .
qed

lemma ensure_no_duplicate_assets_distinct:
  "ensure_no_duplicate_assets fc repr assets =
     (if distinct (assets_to_keys fc assets) then Inr ()
      else Inl (CheckError
        (''Found duplicate assets in the provided list of assets: '' @
         repr (duplicates (assets_to_keys fc assets)) @
         ''. Please ensure that each asset is unique.'')))"
  by (simp add: ensure_no_duplicate_assets_def check_invariant_def Let_def duplicates_empty_iff)

lemma asset_keys_distinct:
  "\<forall>ks. AssetsDefinition ks \<in> set assets \<longrightarrow> distinct ks \<Longrightarrow>
   \<forall>ys \<in> set (map (asset_to_keys_iterable fc) assets). distinct ys"
proof
  fix ys
  assume h: "\<forall>ks. AssetsDefinition ks \<in> set assets \<longrightarrow> distinct ks"
    and "ys \<in> set (map (asset_to_keys_iterable fc) assets)"
  then obtain a where a: "a \<in> set assets" "ys = asset_to_keys_iterable fc a" by auto
  with h show "distinct ys" by (cases a) auto
qed

text \<open>
  Claim C8: \<open>ensure_no_duplicate_assets\<close> raises (a \<open>CheckError\<close> whose message contains
  \<open>Found duplicate assets\<close>) if and only if two entries of the list, at positions
  \<open>i < j\<close>, yield a common asset key, which is if and only if the flattened key list
  has a repetition; otherwise it returns normally. The function is pure: it returns
  nothing but the verdict. The hypothesis states that \<open>AssetsDefinition.keys\<close> is a
  set.
\<close>

theorem ensure_no_duplicate_assets_raises_iff_shared_key:
  assumes "\<forall>ks. AssetsDefinition ks \<in> set assets \<longrightarrow> distinct ks"
  shows
    "ensure_no_duplicate_assets fc repr assets =
       (if \<exists>i j. i < j \<and> j < length assets \<and>
              set (asset_to_keys_iterable fc (assets ! i)) \<inter>
              set (asset_to_keys_iterable fc (assets ! j)) \<noteq> {}
        then Inl (CheckError
          (''Found duplicate assets in the provided list of assets: '' @
           repr (duplicates (assets_to_keys fc assets)) @
           ''. Please ensure that each asset is unique.''))
        else Inr ()) \<and>
     ((\<exists>msg. ensure_no_duplicate_assets fc repr assets = Inl (CheckError msg) \<and>
             sublist ''Found duplicate assets'' msg)
        \<longleftrightarrow> \<not> distinct (assets_to_keys fc assets)) \<and>
     (ensure_no_duplicate_assets fc repr assets = Inr ()
        \<longleftrightarrow> distinct (assets_to_keys fc assets))"
proof -
  let ?xss = "map (asset_to_keys_iterable fc) assets"
  have "distinct (assets_to_keys fc assets) \<longleftrightarrow>
        (\<forall>i j. i < j \<and> j < length ?xss \<longrightarrow> set (?xss ! i) \<inter> set (?xss ! j) = {})"
    unfolding assets_to_keys_def distinct_concat_index
    using asset_keys_distinct [OF assms, of fc] by blast
  also have "\<dots> \<longleftrightarrow> \<not> (\<exists>i j. i < j \<and> j < length assets \<and>
              set (asset_to_keys_iterable fc (assets ! i)) \<inter>
              set (asset_to_keys_iterable fc (assets ! j)) \<noteq> {})"
    by auto
  finally have d: "distinct (assets_to_keys fc assets) \<longleftrightarrow>
     \<not> (\<exists>i j. i < j \<and> j < length assets \<and>
              set (asset_to_keys_iterable fc (assets ! i)) \<inter>
              set (asset_to_keys_iterable fc (assets ! j)) \<noteq> {})" .
  have p: "sublist ''Found duplicate assets''
      (''Found duplicate assets in the provided list of assets: '' @ rest)" for rest
  proof -
    have "''Found duplicate assets in the provided list of assets: '' @ rest =
          [] @ ''Found duplicate assets'' @ ('' in the provided list of assets: '' @ rest)"
      by simp
    then show ?thesis unfolding sublist_def by blast
  qed
  show ?thesis
  proof (cases "distinct (assets_to_keys fc assets)")
    case True
    from d True have ne: "\<not> (\<exists>i j. i < j \<and> j < length assets \<and>
              set (asset_to_keys_iterable fc (assets ! i)) \<inter>
              set (asset_to_keys_iterable fc (assets ! j)) \<noteq> {})"
      by (rule iffD1)
    have r: "ensure_no_duplicate_assets fc repr assets = Inr ()"
      using True by (simp add: ensure_no_duplicate_assets_distinct)
    show ?thesis unfolding if_not_P [OF ne] using r True by simp
  next
    case False
    with d have e: "\<exists>i j. i < j \<and> j < length assets \<and>
              set (asset_to_keys_iterable fc (assets ! i)) \<inter>
              set (asset_to_keys_iterable fc (assets ! j)) \<noteq> {}"
      by blast
    have r: "ensure_no_duplicate_assets fc repr assets = Inl (CheckError
          (''Found duplicate assets in the provided list of assets: '' @
           repr (duplicates (assets_to_keys fc assets)) @
           ''. Please ensure that each asset is unique.''))"
      using False by (simp add: ensure_no_duplicate_assets_distinct)
    show ?thesis unfolding if_P [OF e] using r False p by simp
  qed
qed

theorem ensure_no_duplicate_assets_raises_iff_shared_key_witness:
  "ensure_no_duplicate_assets (\<lambda>s. s) (join '', '')
     [AssetsDefinition [''my_asset''], AssetsDefinition [''my_asset'']] =
     Inl (CheckError (''Found duplicate assets in the provided list of assets: '' @
                      ''my_asset, my_asset'' @ ''. Please ensure that each asset is unique.'')) \<and>
   ensure_no_duplicate_assets (\<lambda>s. s) (join '', '')
     [AssetsDefinition [''my_asset''], SourceAsset ''source_asset''] = Inr ()"
proof -
  let ?dup = "[AssetsDefinition [''my_asset''], AssetsDefinition [''my_asset'']]
                :: (string, string) asset list"
  let ?ok = "[AssetsDefinition [''my_asset''], SourceAsset ''source_asset'']
                :: (string, string) asset list"
  have h1: "\<forall>ks. AssetsDefinition ks \<in> set ?dup \<longrightarrow> distinct ks" by simp
  have h2: "\<forall>ks. AssetsDefinition ks \<in> set ?ok \<longrightarrow> distinct ks" by simp
  have e: "\<exists>i j. i < j \<and> j < length ?dup \<and>
              set (asset_to_keys_iterable (\<lambda>s. s) (?dup ! i)) \<inter>
              set (asset_to_keys_iterable (\<lambda>s. s) (?dup ! j)) \<noteq> {}"
    by (rule exI [of _ 0], rule exI [of _ 1]) simp
  have r: "join '', '' (duplicates (assets_to_keys (\<lambda>s. s) ?dup)) = ''my_asset, my_asset''"
    by (simp add: duplicates_def assets_to_keys_def)
  have d: "distinct (assets_to_keys (\<lambda>s. s) ?ok)"
    by (simp add: assets_to_keys_def)
  have a: "ensure_no_duplicate_assets (\<lambda>s. s) (join '', '') ?dup =
     Inl (CheckError (''Found duplicate assets in the provided list of assets: '' @
                      ''my_asset, my_asset'' @ ''. Please ensure that each asset is unique.''))"
    using ensure_no_duplicate_assets_raises_iff_shared_key
      [OF h1, of "\<lambda>s. s" "join '', ''", THEN conjunct1] e
    by (simp only: if_True r)
  have b: "ensure_no_duplicate_assets (\<lambda>s. s) (join '', '') ?ok = Inr ()"
    using ensure_no_duplicate_assets_raises_iff_shared_key
      [OF h2, of "\<lambda>s. s" "join '', ''", THEN conjunct2, THEN conjunct2] d
    by (rule iffD2)
  from a b show ?thesis by (rule conjI)
qed

subsection \<open>retrieve\_latest\_record\<close>








subsection \<open>The default automation sensor\<close>

















subsection \<open>The value hashes pinned by test\_value\_hash\<close>









end
